theory Spec2Isabelle
  imports Main "HOL-Library.Multiset"
begin

section \<open>The semaphore demo (examples/semaphore.py)\<close>

text \<open>
  \<^verbatim>\<open>get_address_info(address, semaphore, t_num)\<close> runs in one thread per address.
  The threads share the semaphore's counter and the module-level list \<^verbatim>\<open>valid_ips\<close>.
  The model is an interleaving transition system: each statement of the thread body and of
  \<^verbatim>\<open>run_semaphore_example\<close> is one atomic step, and a schedule says which actor moves
  next. The two library primitives are taken with their documented meaning:
  \<^verbatim>\<open>Semaphore.acquire\<close> blocks while the counter is 0 and decrements it otherwise,
  leaving a \<^verbatim>\<open>with\<close> block releases (increments the counter), and \<^verbatim>\<open>Thread.join\<close>
  blocks until the thread's target has returned. \<^verbatim>\<open>print\<close>, \<^verbatim>\<open>list.append\<close> and
  \<^verbatim>\<open>sleep\<close> are taken not to raise.
\<close>

type_synonym address = string
type_synonym whois_result = string

text \<open>What \<^verbatim>\<open>IPWhois(address=address)\<close> followed by \<^verbatim>\<open>obj.lookup_whois()\<close> does:
  it raises an exception of class \<^verbatim>\<open>Exception\<close> or of a subclass (with its message), or
  returns \<^verbatim>\<open>None\<close>, or returns a result.\<close>

datatype lookup_outcome = Raises string | ReturnsNone | Returns whois_result

text \<open>Where a thread stands in \<^verbatim>\<open>get_address_info\<close> (the statement it executes next).\<close>

datatype position =
    NotStarted
  | AtLookup
  | AtAcquire whois_result
  | AtLogAcquire whois_result
  | AtAppend whois_result
  | AtSleep
  | AtRelease
  | AtLogRelease
  | AtLogException string
  | Finished

record thread =
  address :: address
  t_num :: nat
  pos :: position

text \<open>Where \<^verbatim>\<open>run_semaphore_example\<close> stands: in the loop that starts the threads,
  in the loop that joins them, at the final \<^verbatim>\<open>print(valid_ips)\<close>, or returned.\<close>

datatype main_position = Starting nat | Joining nat | Printing | Returned

text \<open>The actions executed so far, oldest first.\<close>

datatype event =
    Started nat
  | Lookup nat
  | Acquired nat
  | LogAcquire nat
  | Appended nat
  | Slept nat
  | Released nat
  | LogRelease nat
  | LogException nat string
  | Joined nat
  | PrintedList "(address \<times> whois_result) list"

record state =
  main_pos :: main_position
  sem :: nat
  threads :: "thread list"
  valid_ips :: "(address \<times> whois_result) list"
  events :: "event list"

datatype actor = Main | Worker nat

definition set_pos :: "nat \<Rightarrow> position \<Rightarrow> thread list \<Rightarrow> thread list" where
  "set_pos t p ths = ths[t := (ths ! t)\<lparr>pos := p\<rparr>]"

definition after_lookup :: "lookup_outcome \<Rightarrow> position" where
  "after_lookup out =
     (case out of Raises msg \<Rightarrow> AtLogException msg
      | ReturnsNone \<Rightarrow> Finished
      | Returns r \<Rightarrow> AtAcquire r)"

text \<open>One step of thread \<open>t\<close>; \<open>None\<close> when the thread cannot move (not started,
  blocked on the semaphore, or finished).\<close>

definition thread_step ::
  "(nat \<Rightarrow> address \<Rightarrow> lookup_outcome) \<Rightarrow> nat \<Rightarrow> state \<Rightarrow> state option" where
  "thread_step whois t s =
     (let th = threads s ! t in
      case pos th of
        NotStarted \<Rightarrow> None
      | AtLookup \<Rightarrow>
          Some (s\<lparr>threads := set_pos t (after_lookup (whois (t_num th) (address th))) (threads s),
                  events := events s @ [Lookup t]\<rparr>)
      | AtAcquire r \<Rightarrow>
          (if sem s = 0 then None
           else Some (s\<lparr>sem := sem s - 1,
                        threads := set_pos t (AtLogAcquire r) (threads s),
                        events := events s @ [Acquired t]\<rparr>))
      | AtLogAcquire r \<Rightarrow>
          Some (s\<lparr>threads := set_pos t (AtAppend r) (threads s),
                  events := events s @ [LogAcquire t]\<rparr>)
      | AtAppend r \<Rightarrow>
          Some (s\<lparr>threads := set_pos t AtSleep (threads s),
                  valid_ips := valid_ips s @ [(address th, r)],
                  events := events s @ [Appended t]\<rparr>)
      | AtSleep \<Rightarrow>
          Some (s\<lparr>threads := set_pos t AtRelease (threads s),
                  events := events s @ [Slept t]\<rparr>)
      | AtRelease \<Rightarrow>
          Some (s\<lparr>sem := sem s + 1,
                  threads := set_pos t AtLogRelease (threads s),
                  events := events s @ [Released t]\<rparr>)
      | AtLogRelease \<Rightarrow>
          Some (s\<lparr>threads := set_pos t Finished (threads s),
                  events := events s @ [LogRelease t]\<rparr>)
      | AtLogException msg \<Rightarrow>
          Some (s\<lparr>threads := set_pos t Finished (threads s),
                  events := events s @ [LogException t msg]\<rparr>)
      | Finished \<Rightarrow> None)"

text \<open>One step of \<^verbatim>\<open>run_semaphore_example\<close> after the threads have been created:
  \<^verbatim>\<open>for t in threads: t.start()\<close>, \<^verbatim>\<open>for t in threads: t.join()\<close>,
  \<^verbatim>\<open>print(valid_ips)\<close>.\<close>

definition main_step :: "state \<Rightarrow> state option" where
  "main_step s =
     (case main_pos s of
        Starting k \<Rightarrow>
          (if k < length (threads s)
           then Some (s\<lparr>main_pos := Starting (Suc k),
                        threads := set_pos k AtLookup (threads s),
                        events := events s @ [Started k]\<rparr>)
           else Some (s\<lparr>main_pos := Joining 0\<rparr>))
      | Joining k \<Rightarrow>
          (if k < length (threads s)
           then (if pos (threads s ! k) = Finished
                 then Some (s\<lparr>main_pos := Joining (Suc k), events := events s @ [Joined k]\<rparr>)
                 else None)
           else Some (s\<lparr>main_pos := Printing\<rparr>))
      | Printing \<Rightarrow>
          Some (s\<lparr>main_pos := Returned, events := events s @ [PrintedList (valid_ips s)]\<rparr>)
      | Returned \<Rightarrow> None)"

definition step ::
  "(nat \<Rightarrow> address \<Rightarrow> lookup_outcome) \<Rightarrow> actor \<Rightarrow> state \<Rightarrow> state option" where
  "step whois a s =
     (case a of
        Main \<Rightarrow> main_step s
      | Worker t \<Rightarrow> (if t < length (threads s) then thread_step whois t s else None))"

text \<open>The state after the first loop of \<^verbatim>\<open>run_semaphore_example\<close>: a semaphore with
  \<open>k\<close> permits, one thread per address numbered by \<^verbatim>\<open>enumerate\<close>, none started, and
  the module's \<^verbatim>\<open>valid_ips = []\<close>.\<close>

definition init_state :: "nat \<Rightarrow> address list \<Rightarrow> state" where
  "init_state k ips =
     \<lparr>main_pos = Starting 0,
      sem = k,
      threads = map (\<lambda>(t, ip). \<lparr>address = ip, t_num = t, pos = NotStarted\<rparr>) (enumerate 0 ips),
      valid_ips = [],
      events = []\<rparr>"

text \<open>\<^verbatim>\<open>semaphore = Semaphore(4)\<close> and \<^verbatim>\<open>ips = [faker.ipv4() for _ in range(20)]\<close>;
  \<open>faker n\<close> is the address the \<open>n\<close>-th call of \<^verbatim>\<open>faker.ipv4()\<close> returns.\<close>

definition semaphore_value :: nat where
  "semaphore_value = 4"

definition run_semaphore_example :: "(nat \<Rightarrow> address) \<Rightarrow> state" where
  "run_semaphore_example faker = init_state semaphore_value (map faker [0..<20])"

text \<open>Running a schedule: \<open>None\<close> when it asks an actor to move that cannot.\<close>

fun exec ::
  "(nat \<Rightarrow> address \<Rightarrow> lookup_outcome) \<Rightarrow> actor list \<Rightarrow> state \<Rightarrow> state option" where
  "exec whois [] s = Some s"
| "exec whois (a # as) s =
     (case step whois a s of None \<Rightarrow> None | Some s' \<Rightarrow> exec whois as s')"

inductive reachable ::
  "(nat \<Rightarrow> address \<Rightarrow> lookup_outcome) \<Rightarrow> nat \<Rightarrow> address list \<Rightarrow> state \<Rightarrow> bool"
  for whois :: "nat \<Rightarrow> address \<Rightarrow> lookup_outcome" and k :: nat and ips :: "address list" where
  reachable_init: "reachable whois k ips (init_state k ips)"
| reachable_step:
    "reachable whois k ips s \<Longrightarrow> step whois a s = Some s' \<Longrightarrow> reachable whois k ips s'"

text \<open>A thread holds a permit from the acquire up to the release: inside the
  \<^verbatim>\<open>with semaphore:\<close> block.\<close>

definition holding :: "thread \<Rightarrow> bool" where
  "holding th =
     (case pos th of
        AtLogAcquire r \<Rightarrow> True
      | AtAppend r \<Rightarrow> True
      | AtSleep \<Rightarrow> True
      | AtRelease \<Rightarrow> True
      | _ \<Rightarrow> False)"

definition holders :: "state \<Rightarrow> nat" where
  "holders s = length (filter holding (threads s))"

text \<open>The spec's glossary calls a task in-flight from its admission (it has claimed a
  permit) to its terminal state; in \<^verbatim>\<open>get_address_info\<close> that is from the acquire to
  the return, which comes after the log line that follows the \<^verbatim>\<open>with\<close> block.\<close>

definition admitted_not_terminal :: "position \<Rightarrow> bool" where
  "admitted_not_terminal p =
     (case p of
        AtLogAcquire r \<Rightarrow> True
      | AtAppend r \<Rightarrow> True
      | AtSleep \<Rightarrow> True
      | AtRelease \<Rightarrow> True
      | AtLogRelease \<Rightarrow> True
      | _ \<Rightarrow> False)"

definition in_flight :: "state \<Rightarrow> nat" where
  "in_flight s = length (filter (\<lambda>th. admitted_not_terminal (pos th)) (threads s))"

subsection \<open>Invariants of the transition system\<close>

text \<open>The thread objects keep the arguments they were created with.\<close>

definition shape_ok :: "address list \<Rightarrow> state \<Rightarrow> bool" where
  "shape_ok ips s = (map (\<lambda>th. (t_num th, address th)) (threads s) = enumerate 0 ips)"

text \<open>The start loop has started exactly the threads below its index; the join loop
  has seen the threads below its index finished; after it, every thread has finished.\<close>

definition started_ok :: "main_position \<Rightarrow> nat \<Rightarrow> position \<Rightarrow> bool" where
  "started_ok mp i p =
     (case mp of
        Starting j \<Rightarrow> (p = NotStarted) = (j \<le> i)
      | Joining j \<Rightarrow> p \<noteq> NotStarted \<and> (i < j \<longrightarrow> p = Finished)
      | Printing \<Rightarrow> p = Finished
      | Returned \<Rightarrow> p = Finished)"

definition start_ok :: "state \<Rightarrow> bool" where
  "start_ok s =
     ((case main_pos s of Starting j \<Rightarrow> j \<le> length (threads s) | _ \<Rightarrow> True) \<and>
      (\<forall>i < length (threads s). started_ok (main_pos s) i (pos (threads s ! i))))"

text \<open>The semaphore's counter and the threads inside the block add up to the initial value.\<close>

definition sem_ok :: "nat \<Rightarrow> state \<Rightarrow> bool" where
  "sem_ok k s = (sem s + holders s = k)"

text \<open>A thread past the lookup got there by the outcome of its own lookup.\<close>

definition outcome_ok :: "(nat \<Rightarrow> address \<Rightarrow> lookup_outcome) \<Rightarrow> thread \<Rightarrow> bool" where
  "outcome_ok whois th =
     (let out = whois (t_num th) (address th) in
      case pos th of
        NotStarted \<Rightarrow> True
      | AtLookup \<Rightarrow> True
      | AtAcquire r \<Rightarrow> out = Returns r
      | AtLogAcquire r \<Rightarrow> out = Returns r
      | AtAppend r \<Rightarrow> out = Returns r
      | AtSleep \<Rightarrow> (\<exists>r. out = Returns r)
      | AtRelease \<Rightarrow> (\<exists>r. out = Returns r)
      | AtLogRelease \<Rightarrow> (\<exists>r. out = Returns r)
      | AtLogException msg \<Rightarrow> out = Raises msg
      | Finished \<Rightarrow> True)"

definition outcomes_ok :: "(nat \<Rightarrow> address \<Rightarrow> lookup_outcome) \<Rightarrow> state \<Rightarrow> bool" where
  "outcomes_ok whois s = (\<forall>i < length (threads s). outcome_ok whois (threads s ! i))"

text \<open>The shared list holds one entry for each thread that has executed its append.\<close>

definition appended_pos :: "position \<Rightarrow> bool" where
  "appended_pos p =
     (case p of
        AtSleep \<Rightarrow> True
      | AtRelease \<Rightarrow> True
      | AtLogRelease \<Rightarrow> True
      | Finished \<Rightarrow> True
      | _ \<Rightarrow> False)"

definition entry_of ::
  "(nat \<Rightarrow> address \<Rightarrow> lookup_outcome) \<Rightarrow> thread \<Rightarrow> (address \<times> whois_result) multiset" where
  "entry_of whois th =
     (case whois (t_num th) (address th) of Returns r \<Rightarrow> {#(address th, r)#} | _ \<Rightarrow> {#})"

definition contribution ::
  "(nat \<Rightarrow> address \<Rightarrow> lookup_outcome) \<Rightarrow> thread \<Rightarrow> (address \<times> whois_result) multiset" where
  "contribution whois th = (if appended_pos (pos th) then entry_of whois th else {#})"

definition valid_ok :: "(nat \<Rightarrow> address \<Rightarrow> lookup_outcome) \<Rightarrow> state \<Rightarrow> bool" where
  "valid_ok whois s = (mset (valid_ips s) = sum_list (map (contribution whois) (threads s)))"

text \<open>The entries of the items whose lookup returned a result, in submission order.\<close>

definition succeeded ::
  "(nat \<Rightarrow> address \<Rightarrow> lookup_outcome) \<Rightarrow> address list \<Rightarrow> (address \<times> whois_result) list" where
  "succeeded whois ips =
     concat (map (\<lambda>(t, ip). case whois t ip of Returns r \<Rightarrow> [(ip, r)] | _ \<Rightarrow> [])
                 (enumerate 0 ips))"

text \<open>The thread an event belongs to; the join and the final print are the main thread's.\<close>

fun event_thread :: "event \<Rightarrow> nat option" where
  "event_thread (Started t) = Some t"
| "event_thread (Lookup t) = Some t"
| "event_thread (Acquired t) = Some t"
| "event_thread (LogAcquire t) = Some t"
| "event_thread (Appended t) = Some t"
| "event_thread (Slept t) = Some t"
| "event_thread (Released t) = Some t"
| "event_thread (LogRelease t) = Some t"
| "event_thread (LogException t msg) = Some t"
| "event_thread (Joined t) = None"
| "event_thread (PrintedList v) = None"

definition thread_events :: "nat \<Rightarrow> event list \<Rightarrow> event list" where
  "thread_events t evs = filter (\<lambda>e. event_thread e = Some t) evs"

text \<open>The events of thread \<open>t\<close> so far, read off its position and the outcome of its
  lookup.\<close>

definition script :: "lookup_outcome \<Rightarrow> nat \<Rightarrow> position \<Rightarrow> event list" where
  "script out t p =
     (case p of
        NotStarted \<Rightarrow> []
      | AtLookup \<Rightarrow> [Started t]
      | AtAcquire r \<Rightarrow> [Started t, Lookup t]
      | AtLogAcquire r \<Rightarrow> [Started t, Lookup t, Acquired t]
      | AtAppend r \<Rightarrow> [Started t, Lookup t, Acquired t, LogAcquire t]
      | AtSleep \<Rightarrow> [Started t, Lookup t, Acquired t, LogAcquire t, Appended t]
      | AtRelease \<Rightarrow> [Started t, Lookup t, Acquired t, LogAcquire t, Appended t, Slept t]
      | AtLogRelease \<Rightarrow>
          [Started t, Lookup t, Acquired t, LogAcquire t, Appended t, Slept t, Released t]
      | AtLogException msg \<Rightarrow> [Started t, Lookup t]
      | Finished \<Rightarrow>
          (case out of
             Raises msg \<Rightarrow> [Started t, Lookup t, LogException t msg]
           | ReturnsNone \<Rightarrow> [Started t, Lookup t]
           | Returns r \<Rightarrow>
               [Started t, Lookup t, Acquired t, LogAcquire t, Appended t, Slept t,
                Released t, LogRelease t]))"

definition events_ok :: "(nat \<Rightarrow> address \<Rightarrow> lookup_outcome) \<Rightarrow> state \<Rightarrow> bool" where
  "events_ok whois s =
     (\<forall>t < length (threads s).
        thread_events t (events s) =
        script (whois (t_num (threads s ! t)) (address (threads s ! t))) t (pos (threads s ! t)))"

text \<open>The start events so far are those of threads \<open>0, 1, \<dots>\<close> in this order.\<close>

definition is_start :: "event \<Rightarrow> bool" where
  "is_start e = (case e of Started t \<Rightarrow> True | _ \<Rightarrow> False)"

definition started_count :: "state \<Rightarrow> nat" where
  "started_count s = (case main_pos s of Starting j \<Rightarrow> j | _ \<Rightarrow> length (threads s))"

definition starts_ok :: "state \<Rightarrow> bool" where
  "starts_ok s = (filter is_start (events s) = map Started [0..<started_count s])"




text \<open>What the demo reports about item \<open>t\<close>: its entry in the shared list, or the
  line of the \<^verbatim>\<open>except\<close> branch.\<close>

definition is_report :: "nat \<Rightarrow> event \<Rightarrow> bool" where
  "is_report t e =
     (case e of Appended u \<Rightarrow> u = t | LogException u msg \<Rightarrow> u = t | _ \<Rightarrow> False)"

definition report_count :: "nat \<Rightarrow> state \<Rightarrow> nat" where
  "report_count t s = length (filter (is_report t) (events s))"

definition returns_result :: "lookup_outcome \<Rightarrow> bool" where
  "returns_result out = (case out of Returns r \<Rightarrow> True | _ \<Rightarrow> False)"

text \<open>The events of thread \<open>t\<close> between its acquire and its release: what it does inside
  the \<^verbatim>\<open>with semaphore:\<close> block.\<close>

definition guarded_events :: "nat \<Rightarrow> event list \<Rightarrow> event list" where
  "guarded_events t evs =
     takeWhile (\<lambda>e. e \<noteq> Released t)
       (drop 1 (dropWhile (\<lambda>e. e \<noteq> Acquired t) (thread_events t evs)))"

text \<open>The shared list is the log of the appends: each append event stands for the entry
  of its thread.\<close>

definition logged_entry ::
  "(nat \<Rightarrow> address \<Rightarrow> lookup_outcome) \<Rightarrow> address list \<Rightarrow> event \<Rightarrow> (address \<times> whois_result) list" where
  "logged_entry whois ips e =
     (case e of
        Appended t \<Rightarrow> (case whois t (ips ! t) of Returns r \<Rightarrow> [(ips ! t, r)] | _ \<Rightarrow> [])
      | _ \<Rightarrow> [])"

definition appends_ok ::
  "(nat \<Rightarrow> address \<Rightarrow> lookup_outcome) \<Rightarrow> address list \<Rightarrow> state \<Rightarrow> bool" where
  "appends_ok whois ips s = (valid_ips s = concat (map (logged_entry whois ips) (events s)))"

section \<open>Printing numbers\<close>

text \<open>Python's \<^verbatim>\<open>str\<close> of an integer, as the f-strings use it.\<close>

fun str_nat :: "nat \<Rightarrow> string" where
  "str_nat n =
     (if n < 10 then [''0123456789'' ! n]
      else str_nat (n div 10) @ [''0123456789'' ! (n mod 10)])"

definition str_int :: "int \<Rightarrow> string" where
  "str_int i = (if i < 0 then CHR ''-'' # str_nat (nat (- i)) else str_nat (nat i))"

section \<open>The parallelism demo (examples/parallelism.py)\<close>








section \<open>The PDF downloads of the asynchronous demo (examples/asynchronism.py)\<close>







section \<open>The driver (main.py)\<close>

function countdown :: "int \<Rightarrow> string list" where
  "countdown n = (if n \<ge> 0 then (str_int n @ ''...'') # countdown (n - 1) else [])"
  by pat_completeness auto
termination
  by (relation "measure (\<lambda>n. nat (n + 1))") auto

definition wait_for :: "int \<Rightarrow> string list" where
  "wait_for n = ''Next example will run in...'' # countdown n @ [''Now!'']"

datatype demo = AsyncTasks | ConcurrentTasks | ParallelTasks | SemaphoreExample | WorkerpoolTasks

datatype statement = Print string | Call demo | WaitFor int

text \<open>What the driver does, in order: a printed line, a demo that ran and returned, or a
  demo that raised.\<close>

datatype trace_item = Printed string | Ran demo | Raised demo string

definition main_body :: "statement list" where
  "main_body =
     [Print ''Running async tasks...'', Call AsyncTasks, Print ''Async tasks completed!'',
      WaitFor 5,
      Print ''Running concurrent tasks...'', Call ConcurrentTasks,
      Print ''Concurrent tasks completed!'',
      WaitFor 5,
      Print ''Running parallel tasks...'', Call ParallelTasks,
      Print ''Parallel tasks completed!'',
      WaitFor 5,
      Print ''Running semaphore tasks...'', Call SemaphoreExample,
      Print ''Semaphore tasks completed!'',
      WaitFor 5,
      Print ''Running workerpool tasks...'', Call WorkerpoolTasks,
      Print ''Workerpool tasks completed!'']"

text \<open>The statements run one after the other; \<open>raises d\<close> is the exception demo \<open>d\<close>
  lets escape, if any. An escaped exception ends the process with status 1, the end of
  \<^verbatim>\<open>main\<close> with status 0.\<close>

fun run_statements :: "(demo \<Rightarrow> string option) \<Rightarrow> statement list \<Rightarrow> trace_item list \<times> int" where
  "run_statements raises [] = ([], 0)"
| "run_statements raises (Print l # rest) =
     (case run_statements raises rest of (out, status) \<Rightarrow> (Printed l # out, status))"
| "run_statements raises (WaitFor n # rest) =
     (case run_statements raises rest of
        (out, status) \<Rightarrow> (map Printed (wait_for n) @ out, status))"
| "run_statements raises (Call d # rest) =
     (case raises d of
        Some e \<Rightarrow> ([Raised d e], 1)
      | None \<Rightarrow>
          (case run_statements raises rest of (out, status) \<Rightarrow> (Ran d # out, status)))"

definition main :: "(demo \<Rightarrow> string option) \<Rightarrow> trace_item list \<times> int" where
  "main raises = run_statements raises main_body"

section \<open>Lemmas about the semaphore demo\<close>

lemma exec_reachable:
  "reachable whois k ips s \<Longrightarrow> exec whois as s = Some s' \<Longrightarrow> reachable whois k ips s'"
proof (induction as arbitrary: s)
  case Nil
  then show ?case by simp
next
  case (Cons a as)
  then show ?case
    by (auto split: option.splits intro: reachable_step)
qed

subsection \<open>What one step does\<close>

lemma length_set_pos [simp]: "length (set_pos t p ths) = length ths"
  by (simp add: set_pos_def)

lemma nth_set_pos:
  "i < length ths \<Longrightarrow> set_pos t p ths ! i = (if i = t then (ths ! t)\<lparr>pos := p\<rparr> else ths ! i)"
  by (simp add: set_pos_def nth_list_update)

lemma thread_stepE [consumes 1, case_names lookup acquire log_acquire append sleep release log_release log_exception]:
  assumes "thread_step whois t s = Some s'"
  obtains
    (lookup) "pos (threads s ! t) = AtLookup"
      "s' = s\<lparr>threads := set_pos t (after_lookup (whois (t_num (threads s ! t)) (address (threads s ! t)))) (threads s),
              events := events s @ [Lookup t]\<rparr>"
  | (acquire) r where "pos (threads s ! t) = AtAcquire r" "sem s \<noteq> 0"
      "s' = s\<lparr>sem := sem s - 1, threads := set_pos t (AtLogAcquire r) (threads s),
              events := events s @ [Acquired t]\<rparr>"
  | (log_acquire) r where "pos (threads s ! t) = AtLogAcquire r"
      "s' = s\<lparr>threads := set_pos t (AtAppend r) (threads s), events := events s @ [LogAcquire t]\<rparr>"
  | (append) r where "pos (threads s ! t) = AtAppend r"
      "s' = s\<lparr>threads := set_pos t AtSleep (threads s),
              valid_ips := valid_ips s @ [(address (threads s ! t), r)],
              events := events s @ [Appended t]\<rparr>"
  | (sleep) "pos (threads s ! t) = AtSleep"
      "s' = s\<lparr>threads := set_pos t AtRelease (threads s), events := events s @ [Slept t]\<rparr>"
  | (release) "pos (threads s ! t) = AtRelease"
      "s' = s\<lparr>sem := sem s + 1, threads := set_pos t AtLogRelease (threads s),
              events := events s @ [Released t]\<rparr>"
  | (log_release) "pos (threads s ! t) = AtLogRelease"
      "s' = s\<lparr>threads := set_pos t Finished (threads s), events := events s @ [LogRelease t]\<rparr>"
  | (log_exception) msg where "pos (threads s ! t) = AtLogException msg"
      "s' = s\<lparr>threads := set_pos t Finished (threads s), events := events s @ [LogException t msg]\<rparr>"
proof (cases "pos (threads s ! t)")
  case NotStarted
  with assms show ?thesis by (simp add: thread_step_def)
next
  case AtLookup
  with assms lookup show ?thesis by (simp add: thread_step_def Let_def)
next
  case (AtAcquire r)
  with assms acquire[of r] show ?thesis by (simp add: thread_step_def split: if_splits)
next
  case (AtLogAcquire r)
  with assms log_acquire[of r] show ?thesis by (simp add: thread_step_def)
next
  case (AtAppend r)
  with assms append[of r] show ?thesis by (simp add: thread_step_def Let_def)
next
  case AtSleep
  with assms sleep show ?thesis by (simp add: thread_step_def)
next
  case AtRelease
  with assms release show ?thesis by (simp add: thread_step_def)
next
  case AtLogRelease
  with assms log_release show ?thesis by (simp add: thread_step_def)
next
  case (AtLogException msg)
  with assms log_exception[of msg] show ?thesis by (simp add: thread_step_def)
next
  case Finished
  with assms show ?thesis by (simp add: thread_step_def)
qed

lemma main_stepE [consumes 1, case_names start start_exit join join_exit print]:
  assumes "main_step s = Some s'"
  obtains
    (start) k where "main_pos s = Starting k" "k < length (threads s)"
      "s' = s\<lparr>main_pos := Starting (Suc k), threads := set_pos k AtLookup (threads s),
              events := events s @ [Started k]\<rparr>"
  | (start_exit) k where "main_pos s = Starting k" "\<not> k < length (threads s)"
      "s' = s\<lparr>main_pos := Joining 0\<rparr>"
  | (join) k where "main_pos s = Joining k" "k < length (threads s)"
      "pos (threads s ! k) = Finished"
      "s' = s\<lparr>main_pos := Joining (Suc k), events := events s @ [Joined k]\<rparr>"
  | (join_exit) k where "main_pos s = Joining k" "\<not> k < length (threads s)"
      "s' = s\<lparr>main_pos := Printing\<rparr>"
  | (print) "main_pos s = Printing"
      "s' = s\<lparr>main_pos := Returned, events := events s @ [PrintedList (valid_ips s)]\<rparr>"
proof (cases "main_pos s")
  case (Starting k)
  with assms start[of k] start_exit[of k] show ?thesis
    by (cases "k < length (threads s)") (simp_all add: main_step_def)
next
  case (Joining k)
  with assms join[of k] join_exit[of k] show ?thesis
    by (cases "k < length (threads s)") (simp_all add: main_step_def split: if_splits)
next
  case Printing
  with assms print show ?thesis by (simp add: main_step_def)
next
  case Returned
  with assms show ?thesis by (simp add: main_step_def)
qed

lemma stepE [consumes 1, case_names main worker]:
  assumes "step whois a s = Some s'"
  obtains (main) "a = Main" "main_step s = Some s'"
  | (worker) t where "a = Worker t" "t < length (threads s)" "thread_step whois t s = Some s'"
  using assms by (cases a) (simp_all add: step_def split: if_splits)

subsection \<open>The shape of the thread list and the start and join loops\<close>

lemma thread_step_frame:
  assumes "thread_step whois t s = Some s'"
  shows "\<exists>p'. threads s' = set_pos t p' (threads s) \<and> main_pos s' = main_pos s \<and>
           pos (threads s ! t) \<noteq> NotStarted \<and> pos (threads s ! t) \<noteq> Finished \<and> p' \<noteq> NotStarted"
  using assms
proof (cases rule: thread_stepE)
  case lookup
  then show ?thesis
    by (cases "whois (t_num (threads s ! t)) (address (threads s ! t))")
       (auto simp: after_lookup_def)
qed auto

lemma init_shape: "shape_ok ips (init_state k ips)"
  by (simp add: shape_ok_def init_state_def case_prod_unfold o_def)

lemma map_static_set_pos:
  "map (\<lambda>th. (t_num th, address th)) (set_pos t p ths) = map (\<lambda>th. (t_num th, address th)) ths"
  by (rule nth_equalityI) (simp_all add: nth_set_pos)

lemma step_shape:
  assumes "step whois a s = Some s'" and "shape_ok ips s"
  shows "shape_ok ips s'"
  using assms(1)
proof (cases rule: stepE)
  case main
  from main(2) assms(2) show ?thesis
    by (cases rule: main_stepE) (simp_all add: shape_ok_def map_static_set_pos)
next
  case (worker t)
  from thread_step_frame[OF worker(3)] assms(2) show ?thesis
    by (auto simp: shape_ok_def map_static_set_pos)
qed

lemma shape_length: "shape_ok ips s \<Longrightarrow> length (threads s) = length ips"
  unfolding shape_ok_def by (metis length_enumerate length_map)

lemma shape_nth:
  assumes "shape_ok ips s" and "t < length (threads s)"
  shows "t_num (threads s ! t) = t" and "address (threads s ! t) = ips ! t"
proof -
  from assms(1) have len: "length (threads s) = length ips" by (rule shape_length)
  from assms have "map (\<lambda>th. (t_num th, address th)) (threads s) ! t = enumerate 0 ips ! t"
    by (simp add: shape_ok_def)
  with assms(2) len show "t_num (threads s ! t) = t" and "address (threads s ! t) = ips ! t"
    by (simp_all add: nth_enumerate_eq)
qed

lemma init_start: "start_ok (init_state k ips)"
  by (simp add: start_ok_def init_state_def started_ok_def case_prod_unfold nth_enumerate_eq)

lemma step_start:
  assumes "step whois a s = Some s'" and "start_ok s"
  shows "start_ok s'"
  using assms(1)
proof (cases rule: stepE)
  case main
  from main(2) show ?thesis
  proof (cases rule: main_stepE)
    case (start k)
    with assms(2) show ?thesis
      by (auto simp: start_ok_def started_ok_def nth_set_pos)
  next
    case (start_exit k)
    with assms(2) show ?thesis
      by (auto simp: start_ok_def started_ok_def)
  next
    case (join k)
    with assms(2) show ?thesis
      by (auto simp: start_ok_def started_ok_def less_Suc_eq)
  next
    case (join_exit k)
    with assms(2) show ?thesis
      by (auto simp: start_ok_def started_ok_def)
  next
    case print
    with assms(2) show ?thesis
      by (auto simp: start_ok_def started_ok_def)
  qed
next
  case (worker t)
  from thread_step_frame[OF worker(3)] obtain p' where
    f: "threads s' = set_pos t p' (threads s)" "main_pos s' = main_pos s"
       "pos (threads s ! t) \<noteq> NotStarted" "pos (threads s ! t) \<noteq> Finished" "p' \<noteq> NotStarted"
    by blast
  from assms(2) worker(2) have old: "started_ok (main_pos s) t (pos (threads s ! t))"
    by (simp add: start_ok_def)
  from old f(3,4,5) have new: "started_ok (main_pos s) t p'"
    by (cases "main_pos s") (auto simp: started_ok_def)
  from assms(2) new show ?thesis
    unfolding start_ok_def f(1,2) by (auto simp: nth_set_pos split: main_position.splits)
qed

subsection \<open>The semaphore's counter\<close>

lemma sum_list_update_add:
  fixes f :: "'a \<Rightarrow> 'b::comm_monoid_add"
  shows "i < length xs \<Longrightarrow>
    sum_list (map f (xs[i := v])) + f (xs ! i) = sum_list (map f xs) + f v"
proof (induction xs arbitrary: i)
  case Nil
  then show ?case by simp
next
  case (Cons x xs)
  show ?case
  proof (cases i)
    case 0
    then show ?thesis by (simp add: ac_simps)
  next
    case (Suc j)
    with Cons.prems have "j < length xs" by simp
    from Cons.IH[OF this] Suc show ?thesis by (simp add: ac_simps)
  qed
qed

lemma sum_list_set_pos:
  fixes f :: "thread \<Rightarrow> 'b::comm_monoid_add"
  shows "t < length ths \<Longrightarrow>
    sum_list (map f (set_pos t p ths)) + f (ths ! t) = sum_list (map f ths) + f ((ths ! t)\<lparr>pos := p\<rparr>)"
  unfolding set_pos_def by (rule sum_list_update_add)

lemma length_filter_sum:
  "length (filter P xs) = sum_list (map (\<lambda>x. if P x then 1 else 0) xs)"
  by (induction xs) auto

lemma holders_set_pos:
  assumes "t < length (threads s)"
  shows "length (filter holding (set_pos t p (threads s))) + (if holding (threads s ! t) then 1 else 0)
   = holders s + (if holding ((threads s ! t)\<lparr>pos := p\<rparr>) then 1 else 0)"
  unfolding holders_def length_filter_sum by (rule sum_list_set_pos[OF assms])

lemma holders_step:
  assumes "t < length (threads s)" and "threads s' = set_pos t p (threads s)"
  shows "holders s' + (if holding (threads s ! t) then 1 else 0)
   = holders s + (if holding ((threads s ! t)\<lparr>pos := p\<rparr>) then 1 else 0)"
  using holders_set_pos[OF assms(1), of p] assms(2) by (simp add: holders_def)

lemma init_sem: "sem_ok k (init_state k ips)"
proof -
  have "filter holding (map (\<lambda>(t, ip). \<lparr>address = ip, t_num = t, pos = NotStarted\<rparr>) xs) = []" for xs
    by (induction xs) (auto simp: holding_def)
  then show ?thesis by (simp add: sem_ok_def holders_def init_state_def)
qed

lemma step_sem:
  assumes "step whois a s = Some s'" and "sem_ok k s" and "start_ok s"
  shows "sem_ok k s'"
  using assms(1)
proof (cases rule: stepE)
  case main
  from main(2) show ?thesis
  proof (cases rule: main_stepE)
    case (start j)
    from assms(3) start(1,2) have "pos (threads s ! j) = NotStarted"
      by (simp add: start_ok_def started_ok_def)
    with holders_step[OF start(2), of s' AtLookup] start(3) assms(2) show ?thesis
      by (simp add: sem_ok_def holding_def)
  qed (use assms(2) in \<open>simp_all add: sem_ok_def holders_def\<close>)
next
  case (worker t)
  note hs = holders_step[OF worker(2), of s']
  from worker(3) show ?thesis
  proof (cases rule: thread_stepE)
    case lookup
    with hs[of "after_lookup (whois (t_num (threads s ! t)) (address (threads s ! t)))"] assms(2)
    show ?thesis
      by (cases "whois (t_num (threads s ! t)) (address (threads s ! t))")
         (simp_all add: sem_ok_def holding_def after_lookup_def)
  next
    case (acquire r)
    with hs[of "AtLogAcquire r"] assms(2) show ?thesis
      by (simp add: sem_ok_def holding_def)
  next
    case (log_acquire r)
    with hs[of "AtAppend r"] assms(2) show ?thesis
      by (simp add: sem_ok_def holding_def)
  next
    case (append r)
    with hs[of "AtSleep"] assms(2) show ?thesis
      by (simp add: sem_ok_def holding_def)
  next
    case sleep
    with hs[of "AtRelease"] assms(2) show ?thesis
      by (simp add: sem_ok_def holding_def)
  next
    case release
    with hs[of "AtLogRelease"] assms(2) show ?thesis
      by (simp add: sem_ok_def holding_def)
  next
    case log_release
    with hs[of "Finished"] assms(2) show ?thesis
      by (simp add: sem_ok_def holding_def)
  next
    case (log_exception msg)
    with hs[of "Finished"] assms(2) show ?thesis
      by (simp add: sem_ok_def holding_def)
  qed
qed

subsection \<open>Invariants of every reachable state\<close>

lemma reachable_shape: "reachable whois k ips s \<Longrightarrow> shape_ok ips s"
  by (induction rule: reachable.induct) (auto intro: init_shape step_shape)

lemma reachable_start: "reachable whois k ips s \<Longrightarrow> start_ok s"
  by (induction rule: reachable.induct) (auto intro: init_start step_start)

lemma reachable_sem: "reachable whois k ips s \<Longrightarrow> sem_ok k s"
proof (induction rule: reachable.induct)
  case reachable_init
  show ?case by (rule init_sem)
next
  case (reachable_step s a s')
  from reachable_step.hyps(2) reachable_step.IH reachable_start[OF reachable_step.hyps(1)]
  show ?case by (rule step_sem)
qed

lemma exec_init_reachable:
  "exec whois as (init_state k ips) = Some s \<Longrightarrow> reachable whois k ips s"
  by (rule exec_reachable[OF reachable_init])

subsection \<open>The outcome of the lookup\<close>

lemma outcome_ok_set_pos:
  assumes "outcomes_ok whois s" and "threads s' = set_pos t p (threads s)"
    and "outcome_ok whois ((threads s ! t)\<lparr>pos := p\<rparr>)"
  shows "outcomes_ok whois s'"
  using assms by (simp add: outcomes_ok_def nth_set_pos)

lemma init_outcomes: "outcomes_ok whois (init_state k ips)"
  by (simp add: outcomes_ok_def init_state_def outcome_ok_def case_prod_unfold)

lemma step_outcomes:
  assumes "step whois a s = Some s'" and "outcomes_ok whois s"
  shows "outcomes_ok whois s'"
  using assms(1)
proof (cases rule: stepE)
  case main
  from main(2) show ?thesis
  proof (cases rule: main_stepE)
    case (start j)
    show ?thesis
      by (rule outcome_ok_set_pos[OF assms(2), where t=j and p=AtLookup])
         (simp_all add: start outcome_ok_def)
  qed (use assms(2) in \<open>simp_all add: outcomes_ok_def\<close>)
next
  case (worker t)
  from assms(2) worker(2) have old: "outcome_ok whois (threads s ! t)"
    by (simp add: outcomes_ok_def)
  from worker(3) show ?thesis
  proof (cases rule: thread_stepE)
    case lookup
    show ?thesis
      by (rule outcome_ok_set_pos[OF assms(2), where t=t
            and p="after_lookup (whois (t_num (threads s ! t)) (address (threads s ! t)))"])
         (simp_all add: lookup outcome_ok_def after_lookup_def split: lookup_outcome.splits)
  next
    case (acquire r)
    show ?thesis
      by (rule outcome_ok_set_pos[OF assms(2), where t=t and p="AtLogAcquire r"])
         (use old acquire in \<open>simp_all add: outcome_ok_def\<close>)
  next
    case (log_acquire r)
    show ?thesis
      by (rule outcome_ok_set_pos[OF assms(2), where t=t and p="AtAppend r"])
         (use old log_acquire in \<open>simp_all add: outcome_ok_def\<close>)
  next
    case (append r)
    show ?thesis
      by (rule outcome_ok_set_pos[OF assms(2), where t=t and p="AtSleep"])
         (use old append in \<open>simp_all add: outcome_ok_def\<close>)
  next
    case sleep
    show ?thesis
      by (rule outcome_ok_set_pos[OF assms(2), where t=t and p="AtRelease"])
         (use old sleep in \<open>simp_all add: outcome_ok_def\<close>)
  next
    case release
    show ?thesis
      by (rule outcome_ok_set_pos[OF assms(2), where t=t and p="AtLogRelease"])
         (use old release in \<open>simp_all add: outcome_ok_def\<close>)
  next
    case log_release
    show ?thesis
      by (rule outcome_ok_set_pos[OF assms(2), where t=t and p="Finished"])
         (use old log_release in \<open>simp_all add: outcome_ok_def\<close>)
  next
    case (log_exception msg)
    show ?thesis
      by (rule outcome_ok_set_pos[OF assms(2), where t=t and p="Finished"])
         (use old log_exception in \<open>simp_all add: outcome_ok_def\<close>)
  qed
qed

lemma reachable_outcomes: "reachable whois k ips s \<Longrightarrow> outcomes_ok whois s"
  by (induction rule: reachable.induct) (auto intro: init_outcomes step_outcomes)

subsection \<open>The shared list\<close>

lemma contribution_step:
  assumes "t < length (threads s)" and "threads s' = set_pos t p (threads s)"
  shows "sum_list (map (contribution whois) (threads s')) + contribution whois (threads s ! t)
       = sum_list (map (contribution whois) (threads s))
         + contribution whois ((threads s ! t)\<lparr>pos := p\<rparr>)"
  unfolding assms(2) by (rule sum_list_set_pos[OF assms(1)])

lemma entry_of_pos [simp]: "entry_of whois (th\<lparr>pos := p\<rparr>) = entry_of whois th"
  by (simp add: entry_of_def split: lookup_outcome.splits)

lemma init_valid: "valid_ok whois (init_state k ips)"
proof -
  have "sum_list (map (contribution whois)
          (map (\<lambda>(t, ip). \<lparr>address = ip, t_num = t, pos = NotStarted\<rparr>) xs)) = {#}" for xs
    by (induction xs) (auto simp: contribution_def appended_pos_def)
  then show ?thesis by (simp add: valid_ok_def init_state_def)
qed

lemma step_valid:
  assumes "step whois a s = Some s'" and "valid_ok whois s" and "start_ok s"
    and "outcomes_ok whois s"
  shows "valid_ok whois s'"
  using assms(1)
proof (cases rule: stepE)
  case main
  from main(2) show ?thesis
  proof (cases rule: main_stepE)
    case (start j)
    from assms(3) start(1,2) have "pos (threads s ! j) = NotStarted"
      by (simp add: start_ok_def started_ok_def)
    with contribution_step[OF start(2), of s' AtLookup whois] start(3) assms(2) show ?thesis
      by (simp add: valid_ok_def contribution_def appended_pos_def)
  qed (use assms(2) in \<open>simp_all add: valid_ok_def\<close>)
next
  case (worker t)
  note cs = contribution_step[OF worker(2), of s' _ whois]
  from assms(4) worker(2) have old: "outcome_ok whois (threads s ! t)"
    by (simp add: outcomes_ok_def)
  from worker(3) show ?thesis
  proof (cases rule: thread_stepE)
    case lookup
    show ?thesis
    proof (cases "whois (t_num (threads s ! t)) (address (threads s ! t))")
      case ReturnsNone
      then have "entry_of whois (threads s ! t) = {#}"
        by (simp add: entry_of_def)
      with ReturnsNone lookup
        cs[of "after_lookup (whois (t_num (threads s ! t)) (address (threads s ! t)))"] assms(2)
      show ?thesis
        by (simp add: valid_ok_def contribution_def appended_pos_def after_lookup_def)
    qed (use lookup
        cs[of "after_lookup (whois (t_num (threads s ! t)) (address (threads s ! t)))"] assms(2)
        in \<open>simp_all add: valid_ok_def contribution_def appended_pos_def after_lookup_def\<close>)
  next
    case (acquire r)
    with cs[of "AtLogAcquire r"] assms(2) show ?thesis
      by (simp add: valid_ok_def contribution_def appended_pos_def)
  next
    case (log_acquire r)
    with cs[of "AtAppend r"] assms(2) show ?thesis
      by (simp add: valid_ok_def contribution_def appended_pos_def)
  next
    case (append r)
    with old have "entry_of whois (threads s ! t) = {#(address (threads s ! t), r)#}"
      by (simp add: entry_of_def outcome_ok_def)
    with append cs[of "AtSleep"] assms(2) show ?thesis
      by (simp add: valid_ok_def contribution_def appended_pos_def)
  next
    case sleep
    with cs[of "AtRelease"] assms(2) show ?thesis
      by (simp add: valid_ok_def contribution_def appended_pos_def)
  next
    case release
    with cs[of "AtLogRelease"] assms(2) show ?thesis
      by (simp add: valid_ok_def contribution_def appended_pos_def)
  next
    case log_release
    with cs[of "Finished"] assms(2) show ?thesis
      by (simp add: valid_ok_def contribution_def appended_pos_def)
  next
    case (log_exception msg)
    with old have "entry_of whois (threads s ! t) = {#}"
      by (simp add: entry_of_def outcome_ok_def)
    with log_exception cs[of "Finished"] assms(2) show ?thesis
      by (simp add: valid_ok_def contribution_def appended_pos_def)
  qed
qed

lemma reachable_valid: "reachable whois k ips s \<Longrightarrow> valid_ok whois s"
proof (induction rule: reachable.induct)
  case reachable_init
  show ?case by (rule init_valid)
next
  case (reachable_step s a s')
  from reachable_step.hyps(2) reachable_step.IH reachable_start[OF reachable_step.hyps(1)]
    reachable_outcomes[OF reachable_step.hyps(1)]
  show ?case by (rule step_valid)
qed

lemma mset_concat_map: "mset (concat (map f xs)) = sum_list (map (\<lambda>x. mset (f x)) xs)"
  by (induction xs) auto

lemma all_finished_contribution:
  assumes "\<forall>i < length ths. pos (ths ! i) = Finished"
  shows "map (contribution whois) ths = map (entry_of whois) ths"
  using assms by (intro nth_equalityI) (simp_all add: contribution_def appended_pos_def)

lemma entries_succeeded:
  assumes "shape_ok ips s"
  shows "sum_list (map (entry_of whois) (threads s)) = mset (succeeded whois ips)"
proof -
  let ?g = "\<lambda>(t, ip). mset (case whois t ip of Returns r \<Rightarrow> [(ip, r)] | _ \<Rightarrow> [])"
  have "entry_of whois th = ?g (t_num th, address th)" for th
    by (simp add: entry_of_def split: lookup_outcome.splits)
  then have "map (entry_of whois) (threads s) = map ?g (map (\<lambda>th. (t_num th, address th)) (threads s))"
    by simp
  also have "\<dots> = map ?g (enumerate 0 ips)"
    using assms by (simp add: shape_ok_def)
  finally show ?thesis
    by (simp add: succeeded_def mset_concat_map case_prod_unfold)
qed

lemma returned_valid_ips:
  assumes "reachable whois k ips s" and "main_pos s = Printing \<or> main_pos s = Returned"
  shows "mset (valid_ips s) = mset (succeeded whois ips)"
proof -
  from reachable_start[OF assms(1)] assms(2)
  have fin: "\<forall>i < length (threads s). pos (threads s ! i) = Finished"
    by (auto simp: start_ok_def started_ok_def)
  from reachable_valid[OF assms(1)]
  have "mset (valid_ips s) = sum_list (map (contribution whois) (threads s))"
    by (simp add: valid_ok_def)
  also have "\<dots> = sum_list (map (entry_of whois) (threads s))"
    by (simp only: all_finished_contribution[OF fin])
  also have "\<dots> = mset (succeeded whois ips)"
    by (rule entries_succeeded[OF reachable_shape[OF assms(1)]])
  finally show ?thesis .
qed

subsection \<open>The events of each thread\<close>

lemma thread_events_snoc:
  "thread_events t (evs @ [e]) =
     thread_events t evs @ (if event_thread e = Some t then [e] else [])"
  by (simp add: thread_events_def)

lemma events_ok_thread:
  assumes ok: "events_ok whois s"
    and ths: "threads s' = set_pos t p (threads s)"
    and evs: "events s' = events s @ [e]"
    and e: "event_thread e = Some t"
    and t: "t < length (threads s)"
    and sc: "script (whois (t_num (threads s ! t)) (address (threads s ! t))) t p =
             script (whois (t_num (threads s ! t)) (address (threads s ! t))) t (pos (threads s ! t)) @ [e]"
  shows "events_ok whois s'"
  unfolding events_ok_def
proof (intro allI impI)
  fix u assume "u < length (threads s')"
  then have u: "u < length (threads s)" by (simp add: ths)
  from ok u have old: "thread_events u (events s) =
      script (whois (t_num (threads s ! u)) (address (threads s ! u))) u (pos (threads s ! u))"
    by (simp add: events_ok_def)
  show "thread_events u (events s') =
      script (whois (t_num (threads s' ! u)) (address (threads s' ! u))) u (pos (threads s' ! u))"
  proof (cases "u = t")
    case True
    with old sc e t show ?thesis
      by (simp add: ths evs nth_set_pos thread_events_snoc)
  next
    case False
    with old e u show ?thesis
      by (simp add: ths evs nth_set_pos thread_events_snoc)
  qed
qed

lemma events_ok_main:
  assumes "events_ok whois s" and "threads s' = threads s"
    and "events s' = events s \<or> (\<exists>e. events s' = events s @ [e] \<and> event_thread e = None)"
  shows "events_ok whois s'"
  using assms by (auto simp: events_ok_def thread_events_snoc)

lemma init_events: "events_ok whois (init_state k ips)"
  by (simp add: events_ok_def init_state_def thread_events_def script_def case_prod_unfold)

lemma step_events:
  assumes "step whois a s = Some s'" and "events_ok whois s" and "start_ok s"
    and "outcomes_ok whois s"
  shows "events_ok whois s'"
  using assms(1)
proof (cases rule: stepE)
  case main
  from main(2) show ?thesis
  proof (cases rule: main_stepE)
    case (start j)
    from assms(3) start(1,2) have "pos (threads s ! j) = NotStarted"
      by (simp add: start_ok_def started_ok_def)
    then show ?thesis
      by (intro events_ok_thread[OF assms(2), where t=j and p=AtLookup and e="Started j"])
         (simp_all add: start script_def)
  next
    case (start_exit j)
    then show ?thesis by (intro events_ok_main[OF assms(2)]) simp_all
  next
    case (join j)
    then show ?thesis by (intro events_ok_main[OF assms(2)]) simp_all
  next
    case (join_exit j)
    then show ?thesis by (intro events_ok_main[OF assms(2)]) simp_all
  next
    case print
    then show ?thesis by (intro events_ok_main[OF assms(2)]) simp_all
  qed
next
  case (worker t)
  from assms(4) worker(2) have old: "outcome_ok whois (threads s ! t)"
    by (simp add: outcomes_ok_def)
  from worker(3) show ?thesis
  proof (cases rule: thread_stepE)
    case lookup
    show ?thesis
      by (intro events_ok_thread[OF assms(2), where t=t and e="Lookup t"
            and p="after_lookup (whois (t_num (threads s ! t)) (address (threads s ! t)))"])
         (simp_all add: lookup worker(2) script_def after_lookup_def split: lookup_outcome.splits)
  next
    case (acquire r)
    show ?thesis
      by (intro events_ok_thread[OF assms(2), where t=t and e="Acquired t" and p="AtLogAcquire r"])
         (simp_all add: acquire worker(2) script_def)
  next
    case (log_acquire r)
    show ?thesis
      by (intro events_ok_thread[OF assms(2), where t=t and e="LogAcquire t" and p="AtAppend r"])
         (simp_all add: log_acquire worker(2) script_def)
  next
    case (append r)
    show ?thesis
      by (intro events_ok_thread[OF assms(2), where t=t and e="Appended t" and p="AtSleep"])
         (simp_all add: append worker(2) script_def)
  next
    case sleep
    show ?thesis
      by (intro events_ok_thread[OF assms(2), where t=t and e="Slept t" and p="AtRelease"])
         (simp_all add: sleep worker(2) script_def)
  next
    case release
    show ?thesis
      by (intro events_ok_thread[OF assms(2), where t=t and e="Released t" and p="AtLogRelease"])
         (simp_all add: release worker(2) script_def)
  next
    case log_release
    with old obtain r where "whois (t_num (threads s ! t)) (address (threads s ! t)) = Returns r"
      by (auto simp: outcome_ok_def)
    then show ?thesis
      by (intro events_ok_thread[OF assms(2), where t=t and e="LogRelease t" and p="Finished"])
         (simp_all add: log_release worker(2) script_def)
  next
    case (log_exception msg)
    with old have "whois (t_num (threads s ! t)) (address (threads s ! t)) = Raises msg"
      by (auto simp: outcome_ok_def)
    then show ?thesis
      by (intro events_ok_thread[OF assms(2), where t=t and e="LogException t msg" and p="Finished"])
         (simp_all add: log_exception worker(2) script_def)
  qed
qed

lemma reachable_events: "reachable whois k ips s \<Longrightarrow> events_ok whois s"
proof (induction rule: reachable.induct)
  case reachable_init
  show ?case by (rule init_events)
next
  case (reachable_step s a s')
  from reachable_step.hyps(2) reachable_step.IH reachable_start[OF reachable_step.hyps(1)]
    reachable_outcomes[OF reachable_step.hyps(1)]
  show ?case by (rule step_events)
qed

subsection \<open>The start order, the step budget and progress\<close>

lemma init_starts: "starts_ok (init_state k ips)"
  by (simp add: starts_ok_def init_state_def started_count_def)

lemma step_starts:
  assumes "step whois a s = Some s'" and "starts_ok s" and "start_ok s"
  shows "starts_ok s'"
  using assms(1)
proof (cases rule: stepE)
  case main
  from main(2) show ?thesis
  proof (cases rule: main_stepE)
    case (start j)
    with assms(2) show ?thesis
      by (simp add: starts_ok_def started_count_def is_start_def)
  next
    case (start_exit j)
    with assms(3) have "j = length (threads s)"
      by (simp add: start_ok_def)
    with start_exit assms(2) show ?thesis
      by (simp add: starts_ok_def started_count_def)
  next
    case (join j)
    with assms(2) show ?thesis
      by (simp add: starts_ok_def started_count_def is_start_def)
  next
    case (join_exit j)
    with assms(2) show ?thesis
      by (simp add: starts_ok_def started_count_def)
  next
    case print
    with assms(2) show ?thesis
      by (simp add: starts_ok_def started_count_def is_start_def)
  qed
next
  case (worker t)
  from worker(3) assms(2) show ?thesis
    by (cases rule: thread_stepE)
       (simp_all add: starts_ok_def started_count_def is_start_def cong: main_position.case_cong)
qed

lemma reachable_starts: "reachable whois k ips s \<Longrightarrow> starts_ok s"
proof (induction rule: reachable.induct)
  case reachable_init
  show ?case by (rule init_starts)
next
  case (reachable_step s a s')
  from reachable_step.hyps(2) reachable_step.IH reachable_start[OF reachable_step.hyps(1)]
  show ?case by (rule step_starts)
qed






subsection \<open>Completed runs\<close>


lemma length_succeeded:
  "length (succeeded whois ips) =
   length (filter (\<lambda>(t, ip). returns_result (whois t ip)) (enumerate 0 ips))"
proof -
  have "length (concat (map (\<lambda>(t, ip). case whois t ip of Returns r \<Rightarrow> [(ip, r)] | _ \<Rightarrow> []) xs))
      = length (filter (\<lambda>(t, ip). returns_result (whois t ip)) xs)" for xs :: "(nat \<times> address) list"
    by (induction xs) (auto simp: returns_result_def split: lookup_outcome.splits)
  then show ?thesis by (simp add: succeeded_def)
qed

lemma all_finished:
  assumes "reachable whois k ips s" and "main_pos s = Returned" and "t < length ips"
  shows "pos (threads s ! t) = Finished"
  using reachable_start[OF assms(1)] shape_length[OF reachable_shape[OF assms(1)]] assms(2,3)
  by (simp add: start_ok_def started_ok_def)

lemma thread_events_reachable:
  assumes "reachable whois k ips s" and "t < length ips"
  shows "thread_events t (events s) = script (whois t (ips ! t)) t (pos (threads s ! t))"
proof -
  from assms have t: "t < length (threads s)"
    by (simp add: shape_length[OF reachable_shape])
  from reachable_events[OF assms(1)] t shape_nth[OF reachable_shape[OF assms(1)] t]
  show ?thesis by (simp add: events_ok_def)
qed

lemma outcome_reachable:
  assumes "reachable whois k ips s" and "t < length ips"
  shows "outcome_ok whois (threads s ! t)" and "t_num (threads s ! t) = t"
    and "address (threads s ! t) = ips ! t"
proof -
  from assms have t: "t < length (threads s)"
    by (simp add: shape_length[OF reachable_shape])
  from reachable_outcomes[OF assms(1)] t show "outcome_ok whois (threads s ! t)"
    by (simp add: outcomes_ok_def)
  from shape_nth[OF reachable_shape[OF assms(1)] t]
  show "t_num (threads s ! t) = t" and "address (threads s ! t) = ips ! t" by simp_all
qed

lemma filter_thread_events:
  assumes "\<And>e. P e \<Longrightarrow> event_thread e = Some t"
  shows "filter P evs = filter P (thread_events t evs)"
proof -
  have "(\<lambda>e. event_thread e = Some t \<and> P e) = P" using assms by auto
  then show ?thesis by (simp add: thread_events_def)
qed

subsection \<open>Appends to the shared list\<close>

lemma append_needs_permit:
  assumes "step whois a s = Some s'" and "valid_ips s' \<noteq> valid_ips s"
  shows "\<exists>t r. a = Worker t \<and> t < length (threads s) \<and> pos (threads s ! t) = AtAppend r \<and>
           pos (threads s' ! t) = AtSleep \<and>
           valid_ips s' = valid_ips s @ [(address (threads s ! t), r)]"
  using assms(1)
proof (cases rule: stepE)
  case main
  from main(2) assms(2) show ?thesis
    by (cases rule: main_stepE) simp_all
next
  case (worker t)
  from worker(3) assms(2) worker(1,2) show ?thesis
    by (cases rule: thread_stepE) (simp_all add: nth_set_pos)
qed

subsection \<open>Finished threads\<close>

lemma finished_events:
  assumes "reachable whois k ips s" and "main_pos s = Returned" and "t < length ips"
  shows "thread_events t (events s) = script (whois t (ips ! t)) t Finished"
  using thread_events_reachable[OF assms(1,3)] all_finished[OF assms] by simp

lemma count_started:
  "length (filter (\<lambda>e. e = Started t) (script out t Finished)) = 1"
  by (cases out) (simp_all add: script_def)

lemma count_lookup:
  "length (filter (\<lambda>e. e = Lookup t) (script out t Finished)) = 1"
  by (cases out) (simp_all add: script_def)

lemma count_report:
  "length (filter (is_report t) (script out t Finished)) = (if out = ReturnsNone then 0 else 1)"
  by (cases out) (simp_all add: script_def is_report_def)

lemma set_thread_events:
  "set (thread_events t evs) = {e \<in> set evs. event_thread e = Some t}"
  by (auto simp: thread_events_def)

lemma script_returns_prefix:
  assumes "\<And>m. p \<noteq> AtLogException m"
  shows "take (length (script (Returns r) t p))
           [Started t, Lookup t, Acquired t, LogAcquire t, Appended t, Slept t, Released t,
            LogRelease t] = script (Returns r) t p"
  using assms by (cases p) (simp_all add: script_def)

subsection \<open>The parallelism demo, the PDF downloads and the driver\<close>

lemma wait_for_5:
  "wait_for 5 = [''Next example will run in...'', ''5...'', ''4...'', ''3...'', ''2...'',
                 ''1...'', ''0...'', ''Now!'']"
  by code_simp






subsection \<open>The order of the appends\<close>

lemma init_appends: "appends_ok whois ips (init_state k ips)"
  by (simp add: appends_ok_def init_state_def)

lemma step_appends:
  assumes "step whois a s = Some s'" and "appends_ok whois ips s" and "shape_ok ips s"
    and "outcomes_ok whois s"
  shows "appends_ok whois ips s'"
  using assms(1)
proof (cases rule: stepE)
  case main
  from main(2) assms(2) show ?thesis
    by (cases rule: main_stepE) (simp_all add: appends_ok_def logged_entry_def)
next
  case (worker t)
  from worker(3) show ?thesis
  proof (cases rule: thread_stepE)
    case (append r)
    from assms(4) worker(2) have "outcome_ok whois (threads s ! t)"
      by (simp add: outcomes_ok_def)
    with append(1) shape_nth[OF assms(3) worker(2)] have "whois t (ips ! t) = Returns r"
      by (simp add: outcome_ok_def)
    with append(2) assms(2) shape_nth[OF assms(3) worker(2)] show ?thesis
      by (simp add: appends_ok_def logged_entry_def)
  qed (use assms(2) in \<open>simp_all add: appends_ok_def logged_entry_def\<close>)
qed

lemma reachable_appends: "reachable whois k ips s \<Longrightarrow> appends_ok whois ips s"
proof (induction rule: reachable.induct)
  case reachable_init
  show ?case by (rule init_appends)
next
  case (reachable_step s a s')
  from reachable_step.hyps(2) reachable_step.IH reachable_shape[OF reachable_step.hyps(1)]
    reachable_outcomes[OF reachable_step.hyps(1)]
  show ?case by (rule step_appends)
qed

section \<open>Properties of the demos\<close>

text \<open>
  Claim C1, as stated: at every instant the count of in-flight tasks is at most the limit.
  With in-flight read as the spec's glossary has it (admitted and not yet terminal) this
  fails in the semaphore demo itself: thread 0 leaves the \<^verbatim>\<open>with\<close> block and is
  about to print its release line while threads 1 to 4 hold the four permits, so five tasks
  are in flight under a limit of four.
\<close>

theorem in_flight_exceeds_limit:
  "map_option in_flight
     (exec (\<lambda>t a. Returns ''info'')
        [Main, Main, Main, Main, Main,
         Worker 0, Worker 0, Worker 0, Worker 0, Worker 0, Worker 0,
         Worker 1, Worker 1, Worker 2, Worker 2, Worker 3, Worker 3, Worker 4, Worker 4]
        (run_semaphore_example (\<lambda>n. ''8.8.8.8''))) = Some 5
   \<and> semaphore_value = 4"
  by code_simp

text \<open>
  Claim C1, amended: for every initial value \<open>k\<close> of the semaphore and every list of
  addresses, in every reachable state the number of threads inside the
  \<^verbatim>\<open>with semaphore:\<close> block is at most \<open>k\<close>, and together with the semaphore's
  counter it is exactly \<open>k\<close>. The demo runs with \<open>k = 4\<close>.
\<close>

theorem permit_holders_bounded:
  assumes "reachable whois k ips s"
  shows "sem s + holders s = k \<and> holders s \<le> k"
proof -
  from reachable_sem[OF assms] have "sem s + holders s = k"
    by (simp add: sem_ok_def)
  then show ?thesis by simp
qed

theorem permit_holders_bounded_witness:
  "reachable (\<lambda>t a. Returns ''info'') semaphore_value (map (\<lambda>n. ''8.8.8.8'') [0..<20])
     (the (exec (\<lambda>t a. Returns ''info'')
        [Main, Main, Main, Main, Main,
         Worker 0, Worker 0, Worker 0, Worker 0, Worker 0, Worker 0,
         Worker 1, Worker 1, Worker 2, Worker 2, Worker 3, Worker 3, Worker 4, Worker 4]
        (run_semaphore_example (\<lambda>n. ''8.8.8.8''))))
   \<and> holders (the (exec (\<lambda>t a. Returns ''info'')
        [Main, Main, Main, Main, Main,
         Worker 0, Worker 0, Worker 0, Worker 0, Worker 0, Worker 0,
         Worker 1, Worker 1, Worker 2, Worker 2, Worker 3, Worker 3, Worker 4, Worker 4]
        (run_semaphore_example (\<lambda>n. ''8.8.8.8'')))) \<le> semaphore_value"
  (is "reachable ?w ?k ?ips (the ?e) \<and> _")
proof -
  have "?e \<noteq> None" by code_simp
  then have "?e = Some (the ?e)" by simp
  then have r: "reachable ?w ?k ?ips (the ?e)"
    unfolding run_semaphore_example_def by (rule exec_init_reachable)
  from r permit_holders_bounded[OF r] show ?thesis by simp
qed

text \<open>
  Claim C2, as stated: the run returns exactly N results and the result at index \<open>i\<close> is
  that of item \<open>i\<close>. In the semaphore demo the results are the entries of the shared list,
  which is never sorted: with three addresses, the lookup of the second raising and the
  third thread reaching the append first, the finished run leaves two entries, the third
  item's before the first item's.
\<close>

theorem shared_list_in_append_order:
  "map_option (\<lambda>s. (main_pos s, valid_ips s))
     (exec (\<lambda>t a. if t = 1 then Raises ''timeout'' else Returns ''ok'')
        [Main, Main, Main, Main,
         Worker 2, Worker 2, Worker 2, Worker 2, Worker 2, Worker 2, Worker 2,
         Worker 1, Worker 1,
         Worker 0, Worker 0, Worker 0, Worker 0, Worker 0, Worker 0, Worker 0,
         Main, Main, Main, Main, Main]
        (init_state 4 [''10.0.0.1'', ''10.0.0.2'', ''10.0.0.3'']))
   = Some (Returned, [(''10.0.0.3'', ''ok''), (''10.0.0.1'', ''ok'')])"
  by code_simp

text \<open>
  Claim C2, amended: when \<^verbatim>\<open>run_semaphore_example\<close> has returned, the shared list holds
  exactly one entry \<open>(address, result)\<close> for each item whose lookup returned a result and
  none for the others: it is a permutation of the successful items' entries taken in
  submission order. Its order is the order in which the threads appended: entry by entry
  it is the log's sequence of append events.
\<close>

theorem shared_list_holds_succeeded:
  assumes "reachable whois k ips s" and "main_pos s = Returned"
  shows "mset (valid_ips s) = mset (succeeded whois ips) \<and>
         valid_ips s = concat (map (logged_entry whois ips) (events s))"
proof -
  from assms have "mset (valid_ips s) = mset (succeeded whois ips)"
    by (intro returned_valid_ips) simp_all
  moreover from reachable_appends[OF assms(1)]
  have "valid_ips s = concat (map (logged_entry whois ips) (events s))"
    by (simp add: appends_ok_def)
  ultimately show ?thesis by simp
qed

theorem shared_list_holds_succeeded_witness:
  "reachable (\<lambda>t a. if t = 1 then Raises ''timeout'' else Returns ''ok'') 4
     [''10.0.0.1'', ''10.0.0.2'', ''10.0.0.3'']
     (the (exec (\<lambda>t a. if t = 1 then Raises ''timeout'' else Returns ''ok'')
        [Main, Main, Main, Main,
         Worker 2, Worker 2, Worker 2, Worker 2, Worker 2, Worker 2, Worker 2,
         Worker 1, Worker 1,
         Worker 0, Worker 0, Worker 0, Worker 0, Worker 0, Worker 0, Worker 0,
         Main, Main, Main, Main, Main]
        (init_state 4 [''10.0.0.1'', ''10.0.0.2'', ''10.0.0.3''])))
   \<and> main_pos (the (exec (\<lambda>t a. if t = 1 then Raises ''timeout'' else Returns ''ok'')
        [Main, Main, Main, Main,
         Worker 2, Worker 2, Worker 2, Worker 2, Worker 2, Worker 2, Worker 2,
         Worker 1, Worker 1,
         Worker 0, Worker 0, Worker 0, Worker 0, Worker 0, Worker 0, Worker 0,
         Main, Main, Main, Main, Main]
        (init_state 4 [''10.0.0.1'', ''10.0.0.2'', ''10.0.0.3'']))) = Returned
   \<and> mset (valid_ips (the (exec (\<lambda>t a. if t = 1 then Raises ''timeout'' else Returns ''ok'')
        [Main, Main, Main, Main,
         Worker 2, Worker 2, Worker 2, Worker 2, Worker 2, Worker 2, Worker 2,
         Worker 1, Worker 1,
         Worker 0, Worker 0, Worker 0, Worker 0, Worker 0, Worker 0, Worker 0,
         Main, Main, Main, Main, Main]
        (init_state 4 [''10.0.0.1'', ''10.0.0.2'', ''10.0.0.3'']))))
     = {#(''10.0.0.1'', ''ok''), (''10.0.0.3'', ''ok'')#}"
  (is "reachable ?w 4 ?ips (the ?e) \<and> _ \<and> _")
proof -
  have "?e \<noteq> None" by code_simp
  then have "?e = Some (the ?e)" by simp
  then have r: "reachable ?w 4 ?ips (the ?e)" by (rule exec_init_reachable)
  have m: "main_pos (the ?e) = Returned" by code_simp
  have "succeeded ?w ?ips = [(''10.0.0.1'', ''ok''), (''10.0.0.3'', ''ok'')]" by code_simp
  then have ms: "mset (succeeded ?w ?ips) = {#(''10.0.0.1'', ''ok''), (''10.0.0.3'', ''ok'')#}"
    by simp
  from shared_list_holds_succeeded[OF r m]
  have "mset (valid_ips (the ?e)) = mset (succeeded ?w ?ips)" by (rule conjunct1)
  then have v: "mset (valid_ips (the ?e)) = {#(''10.0.0.1'', ''ok''), (''10.0.0.3'', ''ok'')#}"
    by (simp only: ms)
  from r m v show ?thesis by (intro conjI)
qed

text \<open>
  Claim C4, as stated: items claim admission slots in submission order. In the semaphore
  demo every thread first does its lookup and then races for the semaphore: after the first
  two threads are started, thread 1 can look up and acquire while thread 0 has done
  nothing yet.
\<close>

theorem second_thread_acquires_first:
  "map_option events
     (exec (\<lambda>t a. Returns ''ok'') [Main, Main, Worker 1, Worker 1]
        (run_semaphore_example (\<lambda>n. ''8.8.8.8'')))
   = Some [Started 0, Started 1, Lookup 1, Acquired 1]"
  by code_simp

text \<open>
  Claim C4, amended: the threads are started in submission order: in every reachable state
  the start events in the log are those of threads \<open>0, 1, \<dots>, j - 1\<close> in this order,
  where \<open>j\<close> is the index the start loop has reached. The order in which started threads
  acquire the semaphore is not constrained.
\<close>

theorem threads_started_in_order:
  assumes "reachable whois k ips s"
  shows "filter is_start (events s) = map Started [0..<started_count s]"
  using reachable_starts[OF assms] by (simp add: starts_ok_def)

theorem threads_started_in_order_witness:
  "reachable (\<lambda>t a. Returns ''ok'') semaphore_value (map (\<lambda>n. ''8.8.8.8'') [0..<20])
     (the (exec (\<lambda>t a. Returns ''ok'') [Main, Main, Worker 1, Worker 1]
        (run_semaphore_example (\<lambda>n. ''8.8.8.8''))))
   \<and> filter is_start (events (the (exec (\<lambda>t a. Returns ''ok'') [Main, Main, Worker 1, Worker 1]
        (run_semaphore_example (\<lambda>n. ''8.8.8.8''))))) = [Started 0, Started 1]"
  (is "reachable ?w ?k ?ips (the ?e) \<and> _")
proof -
  have "?e \<noteq> None" by code_simp
  then have "?e = Some (the ?e)" by simp
  then have r: "reachable ?w ?k ?ips (the ?e)"
    unfolding run_semaphore_example_def by (rule exec_init_reachable)
  have "map Started [0..<started_count (the ?e)] = [Started 0, Started 1]" by code_simp
  with r threads_started_in_order[OF r] show ?thesis by simp
qed

text \<open>
  Claim C5: in the semaphore demo (20 addresses, a semaphore of 4) every append to the
  shared list is made by a thread that holds a permit, before and after the append, so at
  most \<open>k\<close> threads are in a position to append; and when the run has returned the length
  of the shared list is the number of items whose lookup returned a result, the list
  holding each such item's entry once and nothing else. Stated for every semaphore value
  \<open>k\<close> and every list of addresses; the list starts empty, as the module creates it.
\<close>

theorem appends_guarded_and_counted:
  "(reachable whois k ips s \<and> step whois a s = Some s' \<and> valid_ips s' \<noteq> valid_ips s \<longrightarrow>
      (\<exists>t r. a = Worker t \<and> holding (threads s ! t) \<and> holding (threads s' ! t) \<and>
             holders s \<le> k \<and> valid_ips s' = valid_ips s @ [(ips ! t, r)])) \<and>
   (reachable whois k ips s2 \<and> main_pos s2 = Returned \<longrightarrow>
      length (valid_ips s2) =
      length (filter (\<lambda>(t, ip). returns_result (whois t ip)) (enumerate 0 ips)) \<and>
      mset (valid_ips s2) = mset (succeeded whois ips))"
proof (intro conjI impI)
  assume a: "reachable whois k ips s \<and> step whois a s = Some s' \<and> valid_ips s' \<noteq> valid_ips s"
  then have r: "reachable whois k ips s" by simp
  from a append_needs_permit[of whois a s s'] obtain t v where
    t: "a = Worker t" "t < length (threads s)" "pos (threads s ! t) = AtAppend v"
       "pos (threads s' ! t) = AtSleep"
       "valid_ips s' = valid_ips s @ [(address (threads s ! t), v)]"
    by blast
  from shape_nth[OF reachable_shape[OF r] t(2)] have "address (threads s ! t) = ips ! t" by simp
  moreover from reachable_sem[OF r] have "holders s \<le> k" by (simp add: sem_ok_def)
  ultimately have "a = Worker t \<and> holding (threads s ! t) \<and> holding (threads s' ! t) \<and>
      holders s \<le> k \<and> valid_ips s' = valid_ips s @ [(ips ! t, v)]"
    using t by (simp add: holding_def)
  then show "\<exists>t r. a = Worker t \<and> holding (threads s ! t) \<and> holding (threads s' ! t) \<and>
      holders s \<le> k \<and> valid_ips s' = valid_ips s @ [(ips ! t, r)]"
    by blast
next
  assume b: "reachable whois k ips s2 \<and> main_pos s2 = Returned"
  then have "mset (valid_ips s2) = mset (succeeded whois ips)"
    by (intro returned_valid_ips[of whois k]) simp_all
  then have "length (valid_ips s2) = length (succeeded whois ips)"
    by (rule mset_eq_length)
  then show "length (valid_ips s2) =
      length (filter (\<lambda>(t, ip). returns_result (whois t ip)) (enumerate 0 ips))"
    by (simp add: length_succeeded)
next
  assume "reachable whois k ips s2 \<and> main_pos s2 = Returned"
  then show "mset (valid_ips s2) = mset (succeeded whois ips)"
    by (intro returned_valid_ips[of whois k]) simp_all
qed

theorem appends_guarded_and_counted_witness:
  "step (\<lambda>t a. if t mod 4 = 3 then Raises ''timeout''
                else if t mod 4 = 2 then ReturnsNone else Returns ''ok'')
     (Worker 0)
     (the (exec (\<lambda>t a. if t mod 4 = 3 then Raises ''timeout''
                       else if t mod 4 = 2 then ReturnsNone else Returns ''ok'')
            [Main, Worker 0, Worker 0, Worker 0]
            (run_semaphore_example (\<lambda>n. ''8.8.8.8''))))
   = exec (\<lambda>t a. if t mod 4 = 3 then Raises ''timeout''
                  else if t mod 4 = 2 then ReturnsNone else Returns ''ok'')
       [Main, Worker 0, Worker 0, Worker 0, Worker 0]
       (run_semaphore_example (\<lambda>n. ''8.8.8.8''))
   \<and> holders (the (exec (\<lambda>t a. if t mod 4 = 3 then Raises ''timeout''
                       else if t mod 4 = 2 then ReturnsNone else Returns ''ok'')
            [Main, Worker 0, Worker 0, Worker 0]
            (run_semaphore_example (\<lambda>n. ''8.8.8.8'')))) \<le> semaphore_value
   \<and> main_pos (the (exec (\<lambda>t a. if t mod 4 = 3 then Raises ''timeout''
                       else if t mod 4 = 2 then ReturnsNone else Returns ''ok'')
            (replicate 21 Main @
             concat (map (\<lambda>t. replicate (if t mod 4 = 3 then 2 else if t mod 4 = 2 then 1 else 7)
                                 (Worker t)) [0..<20]) @
             replicate 22 Main)
            (run_semaphore_example (\<lambda>n. ''8.8.8.8'')))) = Returned
   \<and> length (valid_ips (the (exec (\<lambda>t a. if t mod 4 = 3 then Raises ''timeout''
                       else if t mod 4 = 2 then ReturnsNone else Returns ''ok'')
            (replicate 21 Main @
             concat (map (\<lambda>t. replicate (if t mod 4 = 3 then 2 else if t mod 4 = 2 then 1 else 7)
                                 (Worker t)) [0..<20]) @
             replicate 22 Main)
            (run_semaphore_example (\<lambda>n. ''8.8.8.8''))))) = 10"
  (is "step ?w (Worker 0) (the ?e1) = ?e2 \<and> _ \<and> main_pos (the ?e3) = Returned \<and> _")
proof -
  let ?k = "semaphore_value" and ?ips = "map (\<lambda>n. ''8.8.8.8'') [0..<20]"
  have "?e1 \<noteq> None" by code_simp
  then have "?e1 = Some (the ?e1)" by simp
  then have r1: "reachable ?w ?k ?ips (the ?e1)"
    unfolding run_semaphore_example_def by (rule exec_init_reachable)
  have st: "step ?w (Worker 0) (the ?e1) = ?e2" by code_simp
  have "?e2 \<noteq> None" by code_simp
  then have st': "step ?w (Worker 0) (the ?e1) = Some (the ?e2)" using st by simp
  have ch: "valid_ips (the ?e2) \<noteq> valid_ips (the ?e1)" by code_simp
  have fin: "map_option main_pos ?e3 = Some Returned" by code_simp
  then have "?e3 = Some (the ?e3)" by auto
  then have r3: "reachable ?w ?k ?ips (the ?e3)"
    unfolding run_semaphore_example_def by (rule exec_init_reachable)
  from fin have m3: "main_pos (the ?e3) = Returned" by auto
  have cnt: "length (filter (\<lambda>(t, ip). returns_result (?w t ip)) (enumerate 0 ?ips)) = 10"
    by code_simp
  note inst = appends_guarded_and_counted[of "?w" "?k" "?ips" "the ?e1" "Worker 0" "the ?e2" "the ?e3"]
  from inst r1 st' ch have "holders (the ?e1) \<le> ?k" by blast
  moreover from inst r3 m3 cnt have "length (valid_ips (the ?e3)) = 10" by simp
  ultimately show ?thesis using st m3 by simp
qed

text \<open>
  Claim C7, as stated: every item's task is invoked exactly once and exactly one result is
  produced for it by the time the run returns. The second half fails in the semaphore demo
  for an item whose lookup returns \<^verbatim>\<open>None\<close>: the finished run of a single such item has
  started the thread and done the lookup, and reports nothing (no append, no exception
  line).
\<close>

theorem none_item_reports_nothing:
  "map_option (\<lambda>s. (main_pos s, events s, report_count 0 s))
     (exec (\<lambda>t a. ReturnsNone) [Main, Worker 0, Main, Main, Main, Main]
        (init_state 4 [''10.0.0.1'']))
   = Some (Returned, [Started 0, Lookup 0, Joined 0, PrintedList []], 0)"
  by code_simp

text \<open>
  Claim C7, amended: when \<^verbatim>\<open>run_semaphore_example\<close> has returned, every item's thread
  was started exactly once and did its lookup exactly once (nothing is retried), and the
  item has exactly one report (its append to the shared list, or its exception line)
  unless the lookup returned \<^verbatim>\<open>None\<close>, in which case it has none.
\<close>

theorem each_item_run_once:
  assumes "reachable whois k ips s" and "main_pos s = Returned" and "t < length ips"
  shows "length (filter (\<lambda>e. e = Started t) (events s)) = 1 \<and>
         length (filter (\<lambda>e. e = Lookup t) (events s)) = 1 \<and>
         report_count t s = (if whois t (ips ! t) = ReturnsNone then 0 else 1)"
proof -
  note fe = finished_events[OF assms]
  have "filter (\<lambda>e. e = Started t) (events s) = filter (\<lambda>e. e = Started t) (thread_events t (events s))"
    by (rule filter_thread_events) simp
  then have a: "length (filter (\<lambda>e. e = Started t) (events s)) = 1"
    by (simp add: fe count_started)
  have "filter (\<lambda>e. e = Lookup t) (events s) = filter (\<lambda>e. e = Lookup t) (thread_events t (events s))"
    by (rule filter_thread_events) simp
  then have b: "length (filter (\<lambda>e. e = Lookup t) (events s)) = 1"
    by (simp add: fe count_lookup)
  have "filter (is_report t) (events s) = filter (is_report t) (thread_events t (events s))"
    by (rule filter_thread_events) (auto simp: is_report_def split: event.splits)
  then have c: "report_count t s = (if whois t (ips ! t) = ReturnsNone then 0 else 1)"
    by (simp add: report_count_def fe count_report)
  from a b c show ?thesis by simp
qed

theorem each_item_run_once_witness:
  "reachable (\<lambda>t a. if t = 1 then Raises ''timeout'' else Returns ''ok'') 4
     [''10.0.0.1'', ''10.0.0.2'', ''10.0.0.3'']
     (the (exec (\<lambda>t a. if t = 1 then Raises ''timeout'' else Returns ''ok'')
        [Main, Main, Main, Main,
         Worker 2, Worker 2, Worker 2, Worker 2, Worker 2, Worker 2, Worker 2,
         Worker 1, Worker 1,
         Worker 0, Worker 0, Worker 0, Worker 0, Worker 0, Worker 0, Worker 0,
         Main, Main, Main, Main, Main]
        (init_state 4 [''10.0.0.1'', ''10.0.0.2'', ''10.0.0.3''])))
   \<and> main_pos (the (exec (\<lambda>t a. if t = 1 then Raises ''timeout'' else Returns ''ok'')
        [Main, Main, Main, Main,
         Worker 2, Worker 2, Worker 2, Worker 2, Worker 2, Worker 2, Worker 2,
         Worker 1, Worker 1,
         Worker 0, Worker 0, Worker 0, Worker 0, Worker 0, Worker 0, Worker 0,
         Main, Main, Main, Main, Main]
        (init_state 4 [''10.0.0.1'', ''10.0.0.2'', ''10.0.0.3'']))) = Returned
   \<and> (1::nat) < length [''10.0.0.1'', ''10.0.0.2'', ''10.0.0.3'']
   \<and> report_count 1 (the (exec (\<lambda>t a. if t = 1 then Raises ''timeout'' else Returns ''ok'')
        [Main, Main, Main, Main,
         Worker 2, Worker 2, Worker 2, Worker 2, Worker 2, Worker 2, Worker 2,
         Worker 1, Worker 1,
         Worker 0, Worker 0, Worker 0, Worker 0, Worker 0, Worker 0, Worker 0,
         Main, Main, Main, Main, Main]
        (init_state 4 [''10.0.0.1'', ''10.0.0.2'', ''10.0.0.3'']))) = 1"
  (is "reachable ?w 4 ?ips (the ?e) \<and> _ \<and> _ \<and> _")
proof -
  have "?e \<noteq> None" by code_simp
  then have "?e = Some (the ?e)" by simp
  then have r: "reachable ?w 4 ?ips (the ?e)" by (rule exec_init_reachable)
  have m: "main_pos (the ?e) = Returned" by code_simp
  have t: "(1::nat) < length ?ips" by simp
  from r m t each_item_run_once[OF r m t] show ?thesis by simp
qed

text \<open>
  Claim C9, as stated: the guarded section of the semaphore demo consists of exactly the
  append and the sleep. The block also holds the \<^verbatim>\<open>print\<close> of the "Acquiring access"
  line: in the finished run of one item, the thread's events between its acquire and its
  release are that line, the append and the sleep.
\<close>

theorem guarded_section_has_three_events:
  "map_option (\<lambda>s. guarded_events 0 (events s))
     (exec (\<lambda>t a. Returns ''ok'')
        [Main, Worker 0, Worker 0, Worker 0, Worker 0, Worker 0, Worker 0, Worker 0,
         Main, Main, Main, Main]
        (init_state 4 [''10.0.0.1'']))
   = Some [LogAcquire 0, Appended 0, Slept 0]"
  by code_simp

text \<open>
  Claim C9, amended: for an item whose lookup returns a result, the thread's events are at
  every instant an initial part of: start, lookup, acquire, "Acquiring access" line,
  append, sleep, release, "Releasing access" line; once the thread has finished they are
  all of it. So the guarded section is the "Acquiring access" line, the append and the
  sleep, and the "Releasing access" line comes after the release.
\<close>

theorem guarded_section_order:
  assumes "reachable whois k ips s" and "t < length ips" and "whois t (ips ! t) = Returns r"
  shows "take (length (thread_events t (events s)))
           [Started t, Lookup t, Acquired t, LogAcquire t, Appended t, Slept t, Released t,
            LogRelease t] = thread_events t (events s) \<and>
         (pos (threads s ! t) = Finished \<longrightarrow>
            thread_events t (events s) =
              [Started t, Lookup t, Acquired t, LogAcquire t, Appended t, Slept t, Released t,
               LogRelease t] \<and>
            guarded_events t (events s) = [LogAcquire t, Appended t, Slept t])"
proof -
  note te = thread_events_reachable[OF assms(1,2), unfolded assms(3)]
  from outcome_reachable[OF assms(1,2)] assms(3)
  have ne: "\<And>m. pos (threads s ! t) \<noteq> AtLogException m"
    by (auto simp: outcome_ok_def)
  have a: "take (length (thread_events t (events s)))
           [Started t, Lookup t, Acquired t, LogAcquire t, Appended t, Slept t, Released t,
            LogRelease t] = thread_events t (events s)"
    unfolding te by (rule script_returns_prefix) (rule ne)
  have b: "thread_events t (events s) =
              [Started t, Lookup t, Acquired t, LogAcquire t, Appended t, Slept t, Released t,
               LogRelease t]" if "pos (threads s ! t) = Finished"
    using te that by (simp add: script_def)
  have c: "guarded_events t (events s) = [LogAcquire t, Appended t, Slept t]"
    if "pos (threads s ! t) = Finished"
    unfolding guarded_events_def b[OF that] by simp
  from a b c show ?thesis by blast
qed

theorem guarded_section_order_witness:
  "reachable (\<lambda>t a. Returns ''ok'') 4 [''10.0.0.1'']
     (the (exec (\<lambda>t a. Returns ''ok'')
        [Main, Worker 0, Worker 0, Worker 0, Worker 0, Worker 0, Worker 0, Worker 0]
        (init_state 4 [''10.0.0.1''])))
   \<and> (0::nat) < length [''10.0.0.1'']
   \<and> pos (threads (the (exec (\<lambda>t a. Returns ''ok'')
        [Main, Worker 0, Worker 0, Worker 0, Worker 0, Worker 0, Worker 0, Worker 0]
        (init_state 4 [''10.0.0.1'']))) ! 0) = Finished
   \<and> thread_events 0 (events (the (exec (\<lambda>t a. Returns ''ok'')
        [Main, Worker 0, Worker 0, Worker 0, Worker 0, Worker 0, Worker 0, Worker 0]
        (init_state 4 [''10.0.0.1''])))) =
      [Started 0, Lookup 0, Acquired 0, LogAcquire 0, Appended 0, Slept 0, Released 0,
       LogRelease 0]"
  (is "reachable ?w 4 ?ips (the ?e) \<and> _ \<and> _ \<and> _")
proof -
  have "?e \<noteq> None" by code_simp
  then have "?e = Some (the ?e)" by simp
  then have r: "reachable ?w 4 ?ips (the ?e)" by (rule exec_init_reachable)
  have t: "(0::nat) < length ?ips" by simp
  have o: "?w 0 (?ips ! 0) = Returns ''ok''" by simp
  have f: "pos (threads (the ?e) ! 0) = Finished" by code_simp
  from r t f guarded_section_order[OF r t o] show ?thesis by simp
qed

text \<open>
  Claim C10: in the semaphore demo a thread whose lookup returns \<^verbatim>\<open>None\<close> returns
  before the guard: it is never inside the \<^verbatim>\<open>with\<close> block, it goes from the lookup
  straight to its end, its only events are its start and its lookup, it never acquires,
  never appends, and reports neither a success nor a failure; the shared list, which is
  what the run prints at its end, is made of the other threads' appends alone.
\<close>

theorem none_lookup_leaves_no_trace:
  assumes "reachable whois k ips s" and "t < length ips" and "whois t (ips ! t) = ReturnsNone"
  shows "\<not> holding (threads s ! t) \<and>
         (pos (threads s ! t) = NotStarted \<or> pos (threads s ! t) = AtLookup \<or>
          pos (threads s ! t) = Finished) \<and>
         take (length (thread_events t (events s))) [Started t, Lookup t] =
           thread_events t (events s) \<and>
         Acquired t \<notin> set (events s) \<and> Appended t \<notin> set (events s) \<and>
         report_count t s = 0 \<and>
         valid_ips s =
           concat (map (logged_entry whois ips) (filter (\<lambda>e. e \<noteq> Appended t) (events s)))"
proof -
  note te = thread_events_reachable[OF assms(1,2), unfolded assms(3)]
  from outcome_reachable[OF assms(1,2)] assms(3)
  have p: "pos (threads s ! t) = NotStarted \<or> pos (threads s ! t) = AtLookup \<or>
          pos (threads s ! t) = Finished"
    by (cases "pos (threads s ! t)") (simp_all add: outcome_ok_def)
  then have h: "\<not> holding (threads s ! t)" by (auto simp: holding_def)
  from p have cases3: "thread_events t (events s) = [] \<or> thread_events t (events s) = [Started t]
      \<or> thread_events t (events s) = [Started t, Lookup t]"
    unfolding te by (auto simp: script_def)
  then have pre: "take (length (thread_events t (events s))) [Started t, Lookup t] =
           thread_events t (events s)" by auto
  from cases3 have "Acquired t \<notin> set (thread_events t (events s))"
    and "Appended t \<notin> set (thread_events t (events s))" by auto
  then have na: "Acquired t \<notin> set (events s)" and nb: "Appended t \<notin> set (events s)"
    by (simp_all add: set_thread_events)
  have "filter (is_report t) (events s) = filter (is_report t) (thread_events t (events s))"
    by (rule filter_thread_events) (auto simp: is_report_def split: event.splits)
  also from cases3 have "\<dots> = []" by (auto simp: is_report_def)
  finally have rc: "report_count t s = 0" by (simp add: report_count_def)
  from nb have "filter (\<lambda>e. e \<noteq> Appended t) (events s) = events s"
    by (auto simp: filter_id_conv)
  with reachable_appends[OF assms(1)]
  have vi: "valid_ips s =
      concat (map (logged_entry whois ips) (filter (\<lambda>e. e \<noteq> Appended t) (events s)))"
    by (simp add: appends_ok_def)
  from h p pre na nb rc vi show ?thesis by (intro conjI)
qed

theorem none_lookup_leaves_no_trace_witness:
  "reachable (\<lambda>t a. if t = 1 then ReturnsNone else Returns ''ok'') 4
     [''10.0.0.1'', ''10.0.0.2'']
     (the (exec (\<lambda>t a. if t = 1 then ReturnsNone else Returns ''ok'')
        [Main, Main, Worker 1, Worker 0, Worker 0, Worker 0, Worker 0]
        (init_state 4 [''10.0.0.1'', ''10.0.0.2''])))
   \<and> (1::nat) < length [''10.0.0.1'', ''10.0.0.2'']
   \<and> (if (1::nat) = 1 then ReturnsNone else Returns ''ok'') = ReturnsNone
   \<and> report_count 1 (the (exec (\<lambda>t a. if t = 1 then ReturnsNone else Returns ''ok'')
        [Main, Main, Worker 1, Worker 0, Worker 0, Worker 0, Worker 0]
        (init_state 4 [''10.0.0.1'', ''10.0.0.2'']))) = 0
   \<and> pos (threads (the (exec (\<lambda>t a. if t = 1 then ReturnsNone else Returns ''ok'')
        [Main, Main, Worker 1, Worker 0, Worker 0, Worker 0, Worker 0]
        (init_state 4 [''10.0.0.1'', ''10.0.0.2'']))) ! 1) = Finished"
  (is "reachable ?w 4 ?ips (the ?e) \<and> _ \<and> _ \<and> _ \<and> _")
proof -
  have "?e \<noteq> None" by code_simp
  then have "?e = Some (the ?e)" by simp
  then have r: "reachable ?w 4 ?ips (the ?e)" by (rule exec_init_reachable)
  have t: "(1::nat) < length ?ips" by simp
  have o: "?w 1 (?ips ! 1) = ReturnsNone" by simp
  have f: "pos (threads (the ?e) ! 1) = Finished" by code_simp
  from none_lookup_leaves_no_trace[OF r t o] have "report_count 1 (the ?e) = 0" by blast
  with r t f show ?thesis by simp
qed

text \<open>
  Claim C8: the driver runs the five demos in the order async, concurrency, parallelism,
  semaphore, worker pool, each call returning before the next line is printed, with the
  step \<^verbatim>\<open>wait_for(5)\<close> between consecutive demos, printing its progress lines, and ends
  with status 0. The step between the demos prints the countdown from 5 to 0 and nothing
  else: \<^verbatim>\<open>main.py\<close> imports \<^verbatim>\<open>sleep\<close> and never calls it, so the trace below, which
  is everything the driver does when every demo returns, has no pause in it.
\<close>

theorem driver_trace:
  assumes "\<forall>d. raises d = None"
  shows "main raises =
    ([Printed ''Running async tasks...'', Ran AsyncTasks, Printed ''Async tasks completed!'',
      Printed ''Next example will run in...'', Printed ''5...'', Printed ''4...'',
      Printed ''3...'', Printed ''2...'', Printed ''1...'', Printed ''0...'', Printed ''Now!'',
      Printed ''Running concurrent tasks...'', Ran ConcurrentTasks,
      Printed ''Concurrent tasks completed!'',
      Printed ''Next example will run in...'', Printed ''5...'', Printed ''4...'',
      Printed ''3...'', Printed ''2...'', Printed ''1...'', Printed ''0...'', Printed ''Now!'',
      Printed ''Running parallel tasks...'', Ran ParallelTasks,
      Printed ''Parallel tasks completed!'',
      Printed ''Next example will run in...'', Printed ''5...'', Printed ''4...'',
      Printed ''3...'', Printed ''2...'', Printed ''1...'', Printed ''0...'', Printed ''Now!'',
      Printed ''Running semaphore tasks...'', Ran SemaphoreExample,
      Printed ''Semaphore tasks completed!'',
      Printed ''Next example will run in...'', Printed ''5...'', Printed ''4...'',
      Printed ''3...'', Printed ''2...'', Printed ''1...'', Printed ''0...'', Printed ''Now!'',
      Printed ''Running workerpool tasks...'', Ran WorkerpoolTasks,
      Printed ''Workerpool tasks completed!''],
     0)"
  using assms by (simp add: main_def main_body_def wait_for_5)

theorem driver_trace_witness:
  "snd (main (\<lambda>d. None)) = 0 \<and>
   filter (\<lambda>x. case x of Ran d \<Rightarrow> True | _ \<Rightarrow> False) (fst (main (\<lambda>d. None))) =
     [Ran AsyncTasks, Ran ConcurrentTasks, Ran ParallelTasks, Ran SemaphoreExample,
      Ran WorkerpoolTasks]"
proof -
  have "\<forall>d::demo. (\<lambda>d. None :: string option) d = None" by simp
  from driver_trace[OF this] show ?thesis by simp
qed




end
